theory Spec2Isabelle
  imports Main "HOL-Library.AList" "HOL-Library.Multiset"
begin

section \<open>Data model of the music voting server\<close>

text \<open>
  The interfaces of \<^verbatim>\<open>music_voting_server.ts\<close> as records. A field called \<^verbatim>\<open>id\<close> or
  \<^verbatim>\<open>name\<close> in several interfaces gets the interface's initial as a prefix; optional
  fields are options; \<^verbatim>\<open>number\<close> fields that hold millisecond clock readings or
  vote counts are integers. The literal type \<^verbatim>\<open>'up' | 'down'\<close> is a datatype.
\<close>

datatype direction = Up | Down

record Participant =
  p_id :: string
  p_name :: string
  p_avatar :: "string option"
  joinedAt :: int

record Song =
  s_id :: string
  title :: string
  artist :: string
  albumArt :: "string option"
  duration :: int
  spotifyId :: "string option"
  addedBy :: string
  addedAt :: int

record Vote =
  participantId :: string
  songId :: string
  vote :: direction
  timestamp :: int

text \<open>
  A JavaScript \<^verbatim>\<open>Map\<close> is an association list in insertion order:
  \<^verbatim>\<open>get\<close> is \<^const>\<open>map_of\<close>, \<^verbatim>\<open>set\<close> is \<^const>\<open>AList.update\<close> (an existing key keeps
  its place, a new key goes to the end), \<^verbatim>\<open>delete\<close> is \<^const>\<open>AList.delete\<close> and
  \<^verbatim>\<open>size\<close> is \<^const>\<open>length\<close>.
\<close>

type_synonym ('k, 'v) js_map = "('k \<times> 'v) list"

definition Map_has :: "('k, 'v) js_map \<Rightarrow> 'k \<Rightarrow> bool" where
  "Map_has m k = (map_of m k \<noteq> None)"

record Room =
  r_id :: string
  r_name :: string
  createdBy :: string
  createdAt :: int
  participants :: "(string, Participant) js_map"
  queue :: "Song list"
  currentSong :: "Song option"
  votes :: "(string, Vote list) js_map"
  isActive :: bool

section \<open>Utility functions\<close>

text \<open>\<^verbatim>\<open>votes.reduce((score, vote) => score + (vote.vote === 'up' ? 1 : -1), 0)\<close>\<close>

definition calculateSongScore :: "Vote list \<Rightarrow> int" where
  "calculateSongScore vs = foldl (\<lambda>score v. score + (if vote v = Up then 1 else - 1)) 0 vs"

text \<open>
  \<^verbatim>\<open>Array.prototype.sort(compareFn)\<close> is the language's stable sort: \<open>a\<close> stays before
  \<open>b\<close> unless \<open>compareFn(a, b) > 0\<close>. It is modelled as the insertion sort that puts an
  element in front of the first element it need not follow.
\<close>

fun sort_insert :: "('a \<Rightarrow> 'a \<Rightarrow> int) \<Rightarrow> 'a \<Rightarrow> 'a list \<Rightarrow> 'a list" where
  "sort_insert cmp x [] = [x]"
| "sort_insert cmp x (y # ys) =
     (if cmp x y \<le> 0 then x # y # ys else y # sort_insert cmp x ys)"

fun Array_sort :: "('a \<Rightarrow> 'a \<Rightarrow> int) \<Rightarrow> 'a list \<Rightarrow> 'a list" where
  "Array_sort cmp [] = []"
| "Array_sort cmp (x # xs) = sort_insert cmp x (Array_sort cmp xs)"

text \<open>\<^verbatim>\<open>votesMap.get(a.id) || []\<close>: an array is truthy, so only a missing key gives \<open>[]\<close>.\<close>

definition votes_or_empty :: "(string, Vote list) js_map \<Rightarrow> string \<Rightarrow> Vote list" where
  "votes_or_empty votesMap sid = (case map_of votesMap sid of Some vs \<Rightarrow> vs | None \<Rightarrow> [])"

definition compareSongs :: "(string, Vote list) js_map \<Rightarrow> Song \<Rightarrow> Song \<Rightarrow> int" where
  "compareSongs votesMap a b =
     (let scoreA = calculateSongScore (votes_or_empty votesMap (s_id a));
          scoreB = calculateSongScore (votes_or_empty votesMap (s_id b))
      in scoreB - scoreA)"

definition sortQueueByVotes :: "Song list \<Rightarrow> (string, Vote list) js_map \<Rightarrow> Song list" where
  "sortQueueByVotes q votesMap = Array_sort (compareSongs votesMap) q"

text \<open>The score the ranking reads for a song: that of the votes stored under its id.\<close>

definition songScore :: "(string, Vote list) js_map \<Rightarrow> Song \<Rightarrow> int" where
  "songScore votesMap s = calculateSongScore (votes_or_empty votesMap (s_id s))"


text \<open>
  \<^verbatim>\<open>Math.random().toString(36).substring(2, 8).toUpperCase()\<close>. The argument is the
  base-36 rendering of the random number, \<^verbatim>\<open>0.\<close> followed by digits from \<^verbatim>\<open>0-9a-z\<close>;
  \<^verbatim>\<open>substring(2, 8)\<close> keeps the characters at positions 2 to 7.
\<close>

definition toUpperCase :: "char \<Rightarrow> char" where
  "toUpperCase c =
     (let n = (of_char c :: nat) in if 97 \<le> n \<and> n \<le> 122 then char_of (n - 32) else c)"

definition generateRoomCode :: "string \<Rightarrow> string" where
  "generateRoomCode random36 = map toUpperCase (take 6 (drop 2 random36))"

text \<open>\<^verbatim>\<open>Array.prototype.findIndex\<close> (\<open>-1\<close> when nothing matches) and \<^verbatim>\<open>splice(i, 1)\<close>.\<close>

fun findIndex :: "('a \<Rightarrow> bool) \<Rightarrow> 'a list \<Rightarrow> int" where
  "findIndex P [] = - 1"
| "findIndex P (x # xs) =
     (if P x then 0 else (let i = findIndex P xs in if i < 0 then - 1 else i + 1))"

definition splice_one :: "'a list \<Rightarrow> int \<Rightarrow> 'a list" where
  "splice_one xs i = take (nat i) xs @ drop (nat i + 1) xs"

section \<open>The store and the route handlers\<close>

text \<open>
  The two module-level maps are the state. A handler takes the request's fields, the
  values the environment hands it (\<^verbatim>\<open>uuidv4()\<close>, \<^verbatim>\<open>Date.now()\<close>, the rendering of
  \<^verbatim>\<open>Math.random()\<close>) and the state, and returns the response with the state it leaves.
  An error response is a status and a message. A string field of the request body that
  is missing is the empty string, which is falsy like \<^verbatim>\<open>undefined\<close>. The room a handler
  mutates through its reference is written back under its key. The publish calls to the
  broadcaster change nothing in the store and are left out.
\<close>

record store =
  rooms :: "(string, Room) js_map"
  participantRooms :: "(string, string) js_map"

definition initial_store :: store where
  "initial_store = \<lparr>rooms = [], participantRooms = []\<rparr>"

datatype error = HttpError nat string

record song_fields =
  f_title :: string
  f_artist :: string
  f_albumArt :: "string option"
  f_duration :: int
  f_spotifyId :: "string option"

record song_state =
  st_song :: Song
  st_score :: int
  st_votes :: "(Vote \<times> Participant option) list"

datatype response =
    RoomCreated string string
  | RoomJoined string "Song list"
  | SongAdded Song
  | VoteRecorded "Song list"
  | RoomState "Participant list" "song_state list" "Song option" bool
  | LeftRoom

text \<open>\<^verbatim>\<open>POST /api/rooms\<close>. \<^verbatim>\<open>Date.now()\<close> is read twice, for the creator and for the room.\<close>

definition create ::
  "string \<Rightarrow> string \<Rightarrow> string option \<Rightarrow> string \<Rightarrow> string \<Rightarrow> int \<Rightarrow> int \<Rightarrow> store
     \<Rightarrow> (error + response) \<times> store" where
  "create nm creatorName creatorAvatar random36 uuid now1 now2 st =
     (if nm = [] \<or> creatorName = []
      then (Inl (HttpError 400 ''Room name and creator name are required''), st)
      else
        let roomId = generateRoomCode random36;
            creator = \<lparr>p_id = uuid, p_name = creatorName, p_avatar = creatorAvatar,
                       joinedAt = now1\<rparr>;
            room = \<lparr>r_id = roomId, r_name = nm, createdBy = uuid, createdAt = now2,
                    participants = [(uuid, creator)], queue = [], currentSong = None,
                    votes = [], isActive = True\<rparr>
        in (Inr (RoomCreated roomId uuid),
            st\<lparr>rooms := AList.update roomId room (rooms st),
               participantRooms := AList.update uuid roomId (participantRooms st)\<rparr>))"

text \<open>\<^verbatim>\<open>POST /api/rooms/:roomId/join\<close>.\<close>

definition join ::
  "string \<Rightarrow> string \<Rightarrow> string option \<Rightarrow> string \<Rightarrow> int \<Rightarrow> store \<Rightarrow> (error + response) \<times> store" where
  "join roomId nm avatar uuid now st =
     (if nm = [] then (Inl (HttpError 400 ''Name is required''), st)
      else case map_of (rooms st) roomId of
        None \<Rightarrow> (Inl (HttpError 404 ''Room not found''), st)
      | Some room \<Rightarrow>
          if \<not> isActive room then (Inl (HttpError 400 ''Room is no longer active''), st)
          else
            let participant = \<lparr>p_id = uuid, p_name = nm, p_avatar = avatar, joinedAt = now\<rparr>;
                room' = room\<lparr>participants := AList.update uuid participant (participants room)\<rparr>
            in (Inr (RoomJoined uuid (sortQueueByVotes (queue room') (votes room'))),
                st\<lparr>rooms := AList.update roomId room' (rooms st),
                   participantRooms := AList.update uuid roomId (participantRooms st)\<rparr>))"

text \<open>
  \<^verbatim>\<open>POST /api/rooms/:roomId/queue\<close>. A request without a \<^verbatim>\<open>song\<close> object makes
  \<^verbatim>\<open>song.title\<close> throw; the handler's \<^verbatim>\<open>catch\<close> answers 500.
\<close>

definition addSong ::
  "string \<Rightarrow> string \<Rightarrow> song_fields option \<Rightarrow> string \<Rightarrow> int \<Rightarrow> store \<Rightarrow> (error + response) \<times> store" where
  "addSong roomId pid song uuid now st =
     (case map_of (rooms st) roomId of
        None \<Rightarrow> (Inl (HttpError 404 ''Room not found''), st)
      | Some room \<Rightarrow>
          if \<not> Map_has (participants room) pid
          then (Inl (HttpError 403 ''Not a participant in this room''), st)
          else case song of
            None \<Rightarrow> (Inl (HttpError 500 ''Failed to add song to queue''), st)
          | Some f \<Rightarrow>
              let newSong = \<lparr>s_id = uuid, title = f_title f, artist = f_artist f,
                             albumArt = f_albumArt f, duration = f_duration f,
                             spotifyId = f_spotifyId f, addedBy = pid, addedAt = now\<rparr>;
                  room' = room\<lparr>queue := queue room @ [newSong],
                               votes := AList.update (s_id newSong) [] (votes room)\<rparr>
              in (Inr (SongAdded newSong), st\<lparr>rooms := AList.update roomId room' (rooms st)\<rparr>))"

text \<open>
  \<^verbatim>\<open>POST /api/rooms/:roomId/vote\<close>. The request carries the direction as a string; a
  stored vote has the type \<^verbatim>\<open>'up' | 'down'\<close>.
\<close>

definition castVote ::
  "string \<Rightarrow> string \<Rightarrow> string \<Rightarrow> string \<Rightarrow> int \<Rightarrow> store \<Rightarrow> (error + response) \<times> store" where
  "castVote roomId pid sid v now st =
     (if v \<notin> set [''up'', ''down'']
      then (Inl (HttpError 400 ''Vote must be \"up\" or \"down\"''), st)
      else case map_of (rooms st) roomId of
        None \<Rightarrow> (Inl (HttpError 404 ''Room not found''), st)
      | Some room \<Rightarrow>
          if \<not> Map_has (participants room) pid
          then (Inl (HttpError 403 ''Not a participant in this room''), st)
          else
            let songVotes = votes_or_empty (votes room) sid;
                existingVoteIndex = findIndex (\<lambda>x. participantId x = pid) songVotes;
                songVotes1 = (if existingVoteIndex \<ge> 0
                              then splice_one songVotes existingVoteIndex else songVotes);
                newVote = \<lparr>participantId = pid, songId = sid,
                             vote = (if v = ''up'' then Up else Down), timestamp = now\<rparr>;
                songVotes2 = songVotes1 @ [newVote];
                room' = room\<lparr>votes := AList.update sid songVotes2 (votes room)\<rparr>
            in (Inr (VoteRecorded (sortQueueByVotes (queue room') (votes room'))),
                st\<lparr>rooms := AList.update roomId room' (rooms st)\<rparr>))"

text \<open>
  \<^verbatim>\<open>GET /api/rooms/:roomId\<close>. The query parameter \<^verbatim>\<open>participantId\<close> is optional; it
  is checked when truthy.
\<close>

definition getRoomState :: "string \<Rightarrow> string option \<Rightarrow> store \<Rightarrow> (error + response) \<times> store" where
  "getRoomState roomId pid st =
     (case map_of (rooms st) roomId of
        None \<Rightarrow> (Inl (HttpError 404 ''Room not found''), st)
      | Some room \<Rightarrow>
          if (case pid of None \<Rightarrow> False | Some p \<Rightarrow> p \<noteq> [] \<and> \<not> Map_has (participants room) p)
          then (Inl (HttpError 403 ''Not a participant in this room''), st)
          else
            let sortedQueue = sortQueueByVotes (queue room) (votes room);
                queueWithVotes = map (\<lambda>song.
                  let vs = votes_or_empty (votes room) (s_id song)
                  in \<lparr>st_song = song, st_score = calculateSongScore vs,
                      st_votes = map (\<lambda>x. (x, map_of (participants room) (participantId x))) vs\<rparr>)
                  sortedQueue
            in (Inr (RoomState (map snd (participants room)) queueWithVotes
                       (currentSong room) (isActive room)), st))"

text \<open>
  \<^verbatim>\<open>POST /api/rooms/:roomId/leave\<close>. The \<^verbatim>\<open>forEach\<close> over \<^verbatim>\<open>room.votes\<close> visits every entry once and sets its
  key to the filtered list, so every entry keeps its place.
\<close>

definition leave :: "string \<Rightarrow> string \<Rightarrow> store \<Rightarrow> (error + response) \<times> store" where
  "leave roomId pid st =
     (case map_of (rooms st) roomId of
        None \<Rightarrow> (Inl (HttpError 404 ''Room not found''), st)
      | Some room \<Rightarrow>
          (case map_of (participants room) pid of
             None \<Rightarrow> (Inl (HttpError 404 ''Participant not found''), st)
           | Some participant \<Rightarrow>
               let participants' = AList.delete pid (participants room);
                   votes' = map (\<lambda>(sid, vs). (sid, filter (\<lambda>x. participantId x \<noteq> pid) vs))
                              (votes room);
                   isActive' = (if length participants' = 0 \<or> pid = createdBy room
                                then False else isActive room);
                   room' = room\<lparr>participants := participants', votes := votes',
                                isActive := isActive'\<rparr>
               in (Inr LeftRoom,
                   st\<lparr>rooms := AList.update roomId room' (rooms st),
                      participantRooms := AList.delete pid (participantRooms st)\<rparr>)))"

text \<open>
  The hourly sweep of \<^verbatim>\<open>setInterval\<close>. \<^verbatim>\<open>rooms.forEach\<close> visits the entries in order; the callback deletes
  only the entry it is visiting.
\<close>

definition ROOM_TIMEOUT :: int where
  "ROOM_TIMEOUT = 24 * 60 * 60 * 1000"

definition roomExpired :: "int \<Rightarrow> Room \<Rightarrow> bool" where
  "roomExpired now room = (\<not> isActive room \<or> now - createdAt room > ROOM_TIMEOUT)"

definition sweepRoom :: "int \<Rightarrow> store \<Rightarrow> string \<times> Room \<Rightarrow> store" where
  "sweepRoom now st e =
     (case e of (roomId, room) \<Rightarrow>
        if roomExpired now room
        then st\<lparr>participantRooms :=
                  foldl (\<lambda>m p. AList.delete (fst p) m) (participantRooms st) (participants room),
                rooms := AList.delete roomId (rooms st)\<rparr>
        else st)"

definition expirySweep :: "int \<Rightarrow> store \<Rightarrow> store" where
  "expirySweep now st = foldl (sweepRoom now) st (rooms st)"

section \<open>Sequences of operations\<close>

datatype op =
    Create string string "string option" string string int int
  | Join string string "string option" string int
  | AddSong string string "song_fields option" string int
  | CastVote string string string string int
  | GetRoomState string "string option"
  | Leave string string
  | ExpirySweep int

fun step :: "store \<Rightarrow> op \<Rightarrow> store" where
  "step st (Create nm cn av rnd u t1 t2) = snd (create nm cn av rnd u t1 t2 st)"
| "step st (Join c nm av u t) = snd (join c nm av u t st)"
| "step st (AddSong c p f u t) = snd (addSong c p f u t st)"
| "step st (CastVote c p sg v t) = snd (castVote c p sg v t st)"
| "step st (GetRoomState c p) = snd (getRoomState c p st)"
| "step st (Leave c p) = snd (leave c p st)"
| "step st (ExpirySweep t) = expirySweep t st"

definition run :: "store \<Rightarrow> op list \<Rightarrow> store" where
  "run st ops = foldl step st ops"

section \<open>Histories, well-formedness and sample sessions\<close>


fun voted_ids :: "string \<Rightarrow> op list \<Rightarrow> string set" where
  "voted_ids c [] = {}"
| "voted_ids c (CastVote c' p sg v t # ops) =
     (if c' = c then insert sg (voted_ids c ops) else voted_ids c ops)"
| "voted_ids c (_ # ops) = voted_ids c ops"

fun is_castVote :: "op \<Rightarrow> bool" where
  "is_castVote (CastVote c p sg v t) = True"
| "is_castVote _ = False"

fun cast_on :: "string \<Rightarrow> string \<Rightarrow> string \<Rightarrow> op \<Rightarrow> (direction \<times> int) option" where
  "cast_on c p sg (CastVote c' p' sg' v t) =
     (if c' = c \<and> p' = p \<and> sg' = sg \<and> v \<in> set [''up'', ''down'']
      then Some (if v = ''up'' then Up else Down, t) else None)"
| "cast_on c p sg _ = None"

fun last_cast :: "string \<Rightarrow> string \<Rightarrow> string \<Rightarrow> op list \<Rightarrow> (direction \<times> int) option" where
  "last_cast c p sg [] = None"
| "last_cast c p sg (op # ops) =
     (case last_cast c p sg ops of Some x \<Rightarrow> Some x | None \<Rightarrow> cast_on c p sg op)"

text \<open>
  All votes a room stores for a participant and a song, under whatever key; and the
  votes of the participant in the list under the song's own key.
\<close>

definition stored_votes :: "Room \<Rightarrow> string \<Rightarrow> string \<Rightarrow> Vote list" where
  "stored_votes r p sg =
     filter (\<lambda>x. participantId x = p \<and> songId x = sg) (concat (map snd (votes r)))"

definition votes_of :: "Room \<Rightarrow> string \<Rightarrow> string \<Rightarrow> Vote list" where
  "votes_of r p sg = filter (\<lambda>x. participantId x = p) (votes_or_empty (votes r) sg)"

text \<open>The room after a vote when the participant has at most one vote in the song's list.\<close>

definition voted :: "Room \<Rightarrow> string \<Rightarrow> string \<Rightarrow> direction \<Rightarrow> int \<Rightarrow> Room" where
  "voted r p sg d t = r\<lparr>votes := AList.update sg
      (filter (\<lambda>x. participantId x \<noteq> p) (votes_or_empty (votes r) sg)
         @ [\<lparr>participantId = p, songId = sg, vote = d, timestamp = t\<rparr>]) (votes r)\<rparr>"

text \<open>
  Well-formedness of the store: keys are unique as in any \<^verbatim>\<open>Map\<close>, a room is stored
  under its own code, the votes in a list carry the list's key and no participant occurs
  twice in a list.
\<close>

definition room_inv :: "Room \<Rightarrow> bool" where
  "room_inv r = (distinct (map fst (votes r)) \<and>
     (\<forall>(k, vs) \<in> set (votes r). (\<forall>v \<in> set vs. songId v = k) \<and> distinct (map participantId vs)))"

definition store_inv :: "store \<Rightarrow> bool" where
  "store_inv st = (distinct (map fst (rooms st)) \<and>
     (\<forall>(c, r) \<in> set (rooms st). r_id r = c \<and> room_inv r))"

text \<open>The keys of every room's votes are queued song ids or ids from the given sets.\<close>

definition keys_bounded :: "(string \<Rightarrow> string set) \<Rightarrow> store \<Rightarrow> bool" where
  "keys_bounded X st = (\<forall>c r. map_of (rooms st) c = Some r \<longrightarrow>
      fst ` set (votes r) \<subseteq> s_id ` set (queue r) \<union> X c)"

text \<open>
  Sample sessions: Alice creates a room, Bob joins, Alice adds a song, both vote and Bob
  changes his vote; Alice, the creator, leaves; three rooms of different age and activity.
\<close>

definition song_A :: song_fields where
  "song_A = \<lparr>f_title = ''A'', f_artist = ''X'', f_albumArt = None, f_duration = 180,
             f_spotifyId = None\<rparr>"

definition party_ops :: "op list" where
  "party_ops =
     [Create ''Party'' ''Alice'' None ''0.abc123xyz'' ''u1'' 1 1,
      Join ''ABC123'' ''Bob'' None ''u2'' 2,
      AddSong ''ABC123'' ''u1'' (Some song_A) ''s1'' 3]"

definition party_votes :: "op list" where
  "party_votes =
     [CastVote ''ABC123'' ''u2'' ''s1'' ''up'' 4,
      CastVote ''ABC123'' ''u1'' ''s1'' ''down'' 5,
      CastVote ''ABC123'' ''u2'' ''s1'' ''down'' 6]"

definition party_room :: Room where
  "party_room = \<lparr>r_id = ''ABC123'', r_name = ''Party'', createdBy = ''u1'', createdAt = 1,
     participants = [(''u1'', \<lparr>p_id = ''u1'', p_name = ''Alice'', p_avatar = None, joinedAt = 1\<rparr>),
                     (''u2'', \<lparr>p_id = ''u2'', p_name = ''Bob'', p_avatar = None, joinedAt = 2\<rparr>)],
     queue = [\<lparr>s_id = ''s1'', title = ''A'', artist = ''X'', albumArt = None, duration = 180,
               spotifyId = None, addedBy = ''u1'', addedAt = 3\<rparr>],
     currentSong = None, votes = [(''s1'', [])], isActive = True\<rparr>"

definition party_store :: store where
  "party_store = run initial_store party_ops"

definition closed_store :: store where
  "closed_store = run initial_store (party_ops @ [Leave ''ABC123'' ''u1''])"

definition closed_room :: Room where
  "closed_room = \<lparr>r_id = ''ABC123'', r_name = ''Party'', createdBy = ''u1'', createdAt = 1,
     participants = [(''u2'', \<lparr>p_id = ''u2'', p_name = ''Bob'', p_avatar = None, joinedAt = 2\<rparr>)],
     queue = [\<lparr>s_id = ''s1'', title = ''A'', artist = ''X'', albumArt = None, duration = 180,
               spotifyId = None, addedBy = ''u1'', addedAt = 3\<rparr>],
     currentSong = None, votes = [(''s1'', [])], isActive = False\<rparr>"


definition sweep_ops :: "op list" where
  "sweep_ops =
     [Create ''Old'' ''Alice'' None ''0.aaa111'' ''u1'' 1 1,
      Create ''Closed'' ''Bob'' None ''0.bbb222'' ''u2'' 86000000 86000000,
      Join ''BBB222'' ''Dan'' None ''u4'' 86000001,
      Leave ''BBB222'' ''u2'',
      Create ''Fresh'' ''Carol'' None ''0.ccc333'' ''u3'' 86000005 86000005]"

section \<open>Score and ranking\<close>

lemma foldl_score_shift:
  "foldl (\<lambda>score v. score + (if vote v = Up then 1 else - 1)) a vs =
   a + int (length (filter (\<lambda>v. vote v = Up) vs)) - int (length (filter (\<lambda>v. vote v = Down) vs))"
proof (induction vs arbitrary: a)
  case Nil
  show ?case by simp
next
  case (Cons v vs)
  show ?case
  proof (cases "vote v")
    case Up
    then show ?thesis by (simp add: Cons.IH)
  next
    case Down
    then show ?thesis by (simp add: Cons.IH)
  qed
qed

text \<open>
  C3. The score of a list of votes is the number of up votes minus the number of down
  votes, and the empty list scores 0.
\<close>

theorem calculateSongScore_up_minus_down:
  "calculateSongScore vs =
     int (length (filter (\<lambda>v. vote v = Up) vs)) - int (length (filter (\<lambda>v. vote v = Down) vs))
   \<and> calculateSongScore [] = 0"
  by (simp add: calculateSongScore_def foldl_score_shift)

lemma sort_insert_insort_key:
  "sort_insert (compareSongs vm) x ys = insort_key (\<lambda>s. - songScore vm s) x ys"
  by (induction ys) (simp_all add: compareSongs_def songScore_def)

lemma sortQueueByVotes_sort_key:
  "sortQueueByVotes q vm = sort_key (\<lambda>s. - songScore vm s) q"
  unfolding sortQueueByVotes_def
  by (induction q) (simp_all add: sort_insert_insort_key)

lemma sorted_neg_map:
  "sorted (map (\<lambda>s. - f s) xs) = sorted_wrt (\<lambda>a b. (f b :: int) \<le> f a) xs"
  by (induction xs) auto

text \<open>
  C1. The ranked queue is a permutation of the queue, its scores descend, and the songs
  of any one score stand in the order they had in the queue.
\<close>

theorem sortQueueByVotes_stable_descending:
  "mset (sortQueueByVotes q vm) = mset q
   \<and> sorted_wrt (\<lambda>a b. songScore vm b \<le> songScore vm a) (sortQueueByVotes q vm)
   \<and> (\<forall>k. filter (\<lambda>s. songScore vm s = k) (sortQueueByVotes q vm)
          = filter (\<lambda>s. songScore vm s = k) q)"
proof -
  let ?f = "\<lambda>s. - songScore vm s"
  have perm: "mset (sort_key ?f q) = mset q" by simp
  have "sorted (map ?f (sort_key ?f q))" by (rule sorted_sort_key)
  then have desc: "sorted_wrt (\<lambda>a b. songScore vm b \<le> songScore vm a) (sort_key ?f q)"
    by (simp add: sorted_neg_map)
  have stable: "filter (\<lambda>s. songScore vm s = k) (sort_key ?f q)
                  = filter (\<lambda>s. songScore vm s = k) q" for k
  proof -
    have "filter (\<lambda>s. ?f s = - k) (sort_key ?f q) = filter (\<lambda>s. ?f s = - k) q"
      by (rule sort_key_stable)
    then show ?thesis by simp
  qed
  show ?thesis
    using perm desc stable by (simp add: sortQueueByVotes_sort_key)
qed

section \<open>Failing requests\<close>

text \<open>
  C10. A create, join, addSong, castVote or leave request that is answered with an error
  leaves the rooms and the participant index exactly as they were.
\<close>

theorem failing_call_leaves_store:
  "(fst (create nm cn av rnd u t1 t2 st) = Inl e \<longrightarrow> snd (create nm cn av rnd u t1 t2 st) = st)
   \<and> (fst (join c nm av u t st) = Inl e \<longrightarrow> snd (join c nm av u t st) = st)
   \<and> (fst (addSong c p f u t st) = Inl e \<longrightarrow> snd (addSong c p f u t st) = st)
   \<and> (fst (castVote c p sg v t st) = Inl e \<longrightarrow> snd (castVote c p sg v t st) = st)
   \<and> (fst (leave c p st) = Inl e \<longrightarrow> snd (leave c p st) = st)"
proof (intro conjI impI)
  assume "fst (create nm cn av rnd u t1 t2 st) = Inl e"
  then show "snd (create nm cn av rnd u t1 t2 st) = st"
    by (auto simp: create_def Let_def split: if_splits)
next
  assume "fst (join c nm av u t st) = Inl e"
  then show "snd (join c nm av u t st) = st"
    by (auto simp: join_def Let_def split: if_splits option.splits)
next
  assume "fst (addSong c p f u t st) = Inl e"
  then show "snd (addSong c p f u t st) = st"
    by (auto simp: addSong_def Let_def split: if_splits option.splits)
next
  assume "fst (castVote c p sg v t st) = Inl e"
  then show "snd (castVote c p sg v t st) = st"
    by (auto simp: castVote_def Let_def split: if_splits option.splits)
next
  assume "fst (leave c p st) = Inl e"
  then show "snd (leave c p st) = st"
    by (auto simp: leave_def Let_def split: if_splits option.splits)
qed

text \<open>
  The five handlers failing on the sample sessions: a missing room name, a closed room, a
  stranger adding a song, a vote in an unknown room, a stranger leaving.
\<close>

theorem failing_call_leaves_store_witness:
  "fst (create [] ''Alice'' None ''0.zzz999'' ''u3'' 7 7 party_store)
      = Inl (HttpError 400 ''Room name and creator name are required'')
   \<and> snd (create [] ''Alice'' None ''0.zzz999'' ''u3'' 7 7 party_store) = party_store
   \<and> fst (join ''ABC123'' ''Carol'' None ''u3'' 7 closed_store)
      = Inl (HttpError 400 ''Room is no longer active'')
   \<and> snd (join ''ABC123'' ''Carol'' None ''u3'' 7 closed_store) = closed_store
   \<and> fst (addSong ''ABC123'' ''u9'' (Some song_A) ''s2'' 7 party_store)
      = Inl (HttpError 403 ''Not a participant in this room'')
   \<and> snd (addSong ''ABC123'' ''u9'' (Some song_A) ''s2'' 7 party_store) = party_store
   \<and> fst (castVote ''NOROOM'' ''u1'' ''s1'' ''up'' 7 party_store)
      = Inl (HttpError 404 ''Room not found'')
   \<and> snd (castVote ''NOROOM'' ''u1'' ''s1'' ''up'' 7 party_store) = party_store
   \<and> fst (leave ''ABC123'' ''u9'' party_store) = Inl (HttpError 404 ''Participant not found'')
   \<and> snd (leave ''ABC123'' ''u9'' party_store) = party_store"
proof -
  have h1: "fst (create [] ''Alice'' None ''0.zzz999'' ''u3'' 7 7 party_store)
      = Inl (HttpError 400 ''Room name and creator name are required'')" by code_simp
  have h2: "fst (join ''ABC123'' ''Carol'' None ''u3'' 7 closed_store)
      = Inl (HttpError 400 ''Room is no longer active'')" by code_simp
  have h3: "fst (addSong ''ABC123'' ''u9'' (Some song_A) ''s2'' 7 party_store)
      = Inl (HttpError 403 ''Not a participant in this room'')" by code_simp
  have h4: "fst (castVote ''NOROOM'' ''u1'' ''s1'' ''up'' 7 party_store)
      = Inl (HttpError 404 ''Room not found'')" by code_simp
  have h5: "fst (leave ''ABC123'' ''u9'' party_store) = Inl (HttpError 404 ''Participant not found'')"
    by code_simp
  note c1 = failing_call_leaves_store [THEN conjunct1, THEN mp, OF h1]
  note c2 = failing_call_leaves_store [THEN conjunct2, THEN conjunct1, THEN mp, OF h2]
  note c3 = failing_call_leaves_store [THEN conjunct2, THEN conjunct2, THEN conjunct1, THEN mp, OF h3]
  note c4 = failing_call_leaves_store [THEN conjunct2, THEN conjunct2, THEN conjunct2,
              THEN conjunct1, THEN mp, OF h4]
  note c5 = failing_call_leaves_store [THEN conjunct2, THEN conjunct2, THEN conjunct2,
              THEN conjunct2, THEN mp, OF h5]
  from h1 c1 h2 c2 h3 c3 h4 c4 h5 c5 show ?thesis by (intro conjI)
qed

section \<open>Leaving a room\<close>

lemma map_of_map_values:
  "map_of (map (\<lambda>(k, v). (k, f v)) al) k = map_option f (map_of al k)"
  by (induction al) auto

lemma leave_success:
  assumes "fst (leave c p st) = Inr x"
  obtains r pt where "map_of (rooms st) c = Some r" "map_of (participants r) p = Some pt"
  using assms by (auto simp: leave_def Let_def split: option.splits)

lemma leave_room:
  assumes "map_of (rooms st) c = Some r" "map_of (participants r) p = Some pt"
  shows "map_of (rooms (snd (leave c p st))) c =
    Some (r\<lparr>participants := AList.delete p (participants r),
            votes := map (\<lambda>(sid, vs). (sid, filter (\<lambda>x. participantId x \<noteq> p) vs)) (votes r),
            isActive := (if length (AList.delete p (participants r)) = 0 \<or> p = createdBy r
                         then False else isActive r)\<rparr>)"
  using assms by (simp add: leave_def Let_def update_conv')

text \<open>
  C8. After a successful leave the room stores no vote of the departed participant, and
  every song's score is that of its earlier votes without the participant's.
\<close>

theorem leave_purges_votes:
  assumes "fst (leave c p st) = Inr x"
  shows "\<exists>r r'. map_of (rooms st) c = Some r
           \<and> map_of (rooms (snd (leave c p st))) c = Some r'
           \<and> (\<forall>(k, vs) \<in> set (votes r'). \<forall>v \<in> set vs. participantId v \<noteq> p)
           \<and> (\<forall>sg. songScore (votes r') sg =
                 calculateSongScore (filter (\<lambda>v. participantId v \<noteq> p)
                                       (votes_or_empty (votes r) (s_id sg))))"
proof -
  from assms obtain r pt where r: "map_of (rooms st) c = Some r"
    and pt: "map_of (participants r) p = Some pt" by (rule leave_success)
  let ?vs' = "map (\<lambda>(sid, vs). (sid, filter (\<lambda>x. participantId x \<noteq> p) vs)) (votes r)"
  let ?r' = "r\<lparr>participants := AList.delete p (participants r), votes := ?vs',
            isActive := (if length (AList.delete p (participants r)) = 0 \<or> p = createdBy r
                         then False else isActive r)\<rparr>"
  have r': "map_of (rooms (snd (leave c p st))) c = Some ?r'"
    using r pt by (rule leave_room)
  have purge: "\<forall>(k, vs) \<in> set (votes ?r'). \<forall>v \<in> set vs. participantId v \<noteq> p"
    by auto
  have score: "songScore (votes ?r') sg =
      calculateSongScore (filter (\<lambda>v. participantId v \<noteq> p) (votes_or_empty (votes r) (s_id sg)))" for sg
    by (cases "map_of (votes r) (s_id sg)")
       (simp_all add: songScore_def votes_or_empty_def map_of_map_values)
  show ?thesis using r r' purge score by blast
qed

text \<open>
  Bob leaves the sample room after voting in it.
\<close>

theorem leave_purges_votes_witness:
  "fst (leave ''ABC123'' ''u2'' (run party_store party_votes)) = Inr LeftRoom
   \<and> (\<exists>r r'. map_of (rooms (run party_store party_votes)) ''ABC123'' = Some r
          \<and> map_of (rooms (snd (leave ''ABC123'' ''u2'' (run party_store party_votes)))) ''ABC123''
               = Some r'
          \<and> (\<forall>(k, vs) \<in> set (votes r'). \<forall>v \<in> set vs. participantId v \<noteq> ''u2'')
          \<and> (\<forall>sg. songScore (votes r') sg =
                calculateSongScore (filter (\<lambda>v. participantId v \<noteq> ''u2'')
                                      (votes_or_empty (votes r) (s_id sg)))))"
proof -
  have h: "fst (leave ''ABC123'' ''u2'' (run party_store party_votes)) = Inr LeftRoom"
    by code_simp
  from h leave_purges_votes [OF h] show ?thesis by (rule conjI)
qed

section \<open>The activity flag\<close>

text \<open>
  C7 fails for addSong and castVote: after the creator left, the room is inactive, and Bob,
  still a member, adds a song and votes, and both requests succeed and change the room.
\<close>

theorem inactive_room_accepts_song_counterexample:
  "map_option isActive (map_of (rooms closed_store) ''ABC123'') = Some False
   \<and> fst (addSong ''ABC123'' ''u2'' (Some song_A) ''s2'' 8 closed_store)
       = Inr (SongAdded \<lparr>s_id = ''s2'', title = ''A'', artist = ''X'', albumArt = None,
                         duration = 180, spotifyId = None, addedBy = ''u2'', addedAt = 8\<rparr>)
   \<and> map_option (map s_id \<circ> queue)
        (map_of (rooms (snd (addSong ''ABC123'' ''u2'' (Some song_A) ''s2'' 8 closed_store))) ''ABC123'')
       = Some [''s1'', ''s2'']
   \<and> map_option votes
        (map_of (rooms (snd (castVote ''ABC123'' ''u2'' ''s1'' ''up'' 9 closed_store))) ''ABC123'')
       = Some [(''s1'', [\<lparr>participantId = ''u2'', songId = ''s1'', vote = Up, timestamp = 9\<rparr>])]"
  by code_simp

text \<open>
  C7, amended. On a room whose isActive flag is false, a join request with a name is
  answered 400 "Room is no longer active" and leaves the store unchanged; addSong and
  castVote do not read the flag, and on such a room they succeed for a member (with a
  vote of up or down).
\<close>

theorem inactive_room_rejects_join:
  "(map_of (rooms st) c = Some r \<and> \<not> isActive r \<and> nm \<noteq> [] \<longrightarrow>
      join c nm av u t st = (Inl (HttpError 400 ''Room is no longer active''), st))
   \<and> (map_of (rooms st) c = Some r \<and> \<not> isActive r \<and> Map_has (participants r) p \<longrightarrow>
        (\<exists>x. fst (addSong c p (Some f) u t st) = Inr x))
   \<and> (map_of (rooms st) c = Some r \<and> \<not> isActive r \<and> Map_has (participants r) p
        \<and> v \<in> {''up'', ''down''} \<longrightarrow>
        (\<exists>x. fst (castVote c p sg v t st) = Inr x))"
  by (auto simp: join_def addSong_def castVote_def Let_def)

text \<open>
  The three requests on the sample room after its creator left.
\<close>

theorem inactive_room_rejects_join_witness:
  "join ''ABC123'' ''Carol'' None ''u3'' 7 closed_store
     = (Inl (HttpError 400 ''Room is no longer active''), closed_store)
   \<and> (\<exists>x. fst (addSong ''ABC123'' ''u2'' (Some song_A) ''u3'' 7 closed_store) = Inr x)
   \<and> (\<exists>x. fst (castVote ''ABC123'' ''u2'' ''s1'' ''up'' 7 closed_store) = Inr x)"
proof -
  have h: "map_of (rooms closed_store) ''ABC123'' = Some closed_room" "\<not> isActive closed_room"
    "''Carol'' \<noteq> []" "Map_has (participants closed_room) ''u2''" "''up'' \<in> {''up'', ''down''}"
    by code_simp+
  from inactive_room_rejects_join [where st = closed_store and c = "''ABC123''" and r = closed_room
      and nm = "''Carol''" and av = None and u = "''u3''" and t = 7 and p = "''u2''"
      and f = song_A and v = "''up''" and sg = "''s1''"] h
  show ?thesis by blast
qed

lemma sweepRoom_rooms_sub:
  "map_of (rooms (sweepRoom now st e)) c = Some r \<Longrightarrow> map_of (rooms st) c = Some r"
  by (cases e) (auto simp: sweepRoom_def delete_conv' split: if_splits)

lemma foldl_sweepRoom_rooms_sub:
  "map_of (rooms (foldl (sweepRoom now) st es)) c = Some r \<Longrightarrow> map_of (rooms st) c = Some r"
  by (induction es arbitrary: st) (auto dest: sweepRoom_rooms_sub)











section \<open>Well-formedness of reachable stores\<close>

lemma set_update_subset: "set (AList.update k v al) \<subseteq> insert (k, v) (set al)"
  by (induction al) auto

lemma ball_update:
  "\<forall>e \<in> set al. Q e \<Longrightarrow> Q (k, v) \<Longrightarrow> \<forall>e \<in> set (AList.update k v al). Q e"
  using set_update_subset [of k v al] by blast

lemma update_fresh_append: "k \<notin> fst ` set al \<Longrightarrow> AList.update k v al = al @ [(k, v)]"
  by (induction al) auto

lemma store_inv_lookup:
  assumes "store_inv st" "map_of (rooms st) c = Some r"
  shows "r_id r = c" "room_inv r"
  using assms by (auto simp: store_inv_def dest!: map_of_SomeD)

text \<open>
  \<^verbatim>\<open>findIndex\<close> followed by \<^verbatim>\<open>splice\<close> removes the first match, which is the only one
  when no participant occurs twice.
\<close>

lemma findIndex_ge: "- 1 \<le> findIndex P xs"
  by (induction xs) (auto simp: Let_def)

lemma findIndex_neg_iff: "findIndex P xs < 0 \<longleftrightarrow> (\<forall>x \<in> set xs. \<not> P x)"
  using findIndex_ge [of P] by (induction xs) (auto simp: Let_def)

lemma splice_first_filter:
  assumes "distinct (map f xs)"
  shows "(if findIndex (\<lambda>x. f x = a) xs \<ge> 0
          then splice_one xs (findIndex (\<lambda>x. f x = a) xs) else xs) = filter (\<lambda>x. f x \<noteq> a) xs"
  using assms
proof (induction xs)
  case Nil
  show ?case by simp
next
  case (Cons x xs)
  show ?case
  proof (cases "f x = a")
    case True
    from Cons.prems have "f x \<notin> f ` set xs" by simp
    with True have "\<forall>y \<in> set xs. f y \<noteq> a" by blast
    then have "filter (\<lambda>x. f x \<noteq> a) xs = xs" by simp
    with True show ?thesis by (simp add: splice_one_def)
  next
    case False
    let ?i = "findIndex (\<lambda>x. f x = a) xs"
    from Cons have IH: "(if ?i \<ge> 0 then splice_one xs ?i else xs) = filter (\<lambda>x. f x \<noteq> a) xs"
      by simp
    show ?thesis
    proof (cases "?i < 0")
      case True
      with False IH show ?thesis by (simp add: Let_def)
    next
      case nonneg: False
      then have "nat (?i + 1) = Suc (nat ?i)" by simp
      with False nonneg IH show ?thesis
        by (simp add: Let_def splice_one_def nat_add_distrib)
    qed
  qed
qed

lemma votes_or_empty_inv:
  assumes "room_inv r"
  shows "\<forall>v \<in> set (votes_or_empty (votes r) sg). songId v = sg"
    and "distinct (map participantId (votes_or_empty (votes r) sg))"
  using assms
  by (auto simp: room_inv_def votes_or_empty_def split: option.splits dest!: map_of_SomeD)

lemma castVote_room:
  assumes "map_of (rooms st) c = Some r" "Map_has (participants r) p" "v \<in> {''up'', ''down''}"
    and "room_inv r"
  shows "snd (castVote c p sg v t st) =
     st\<lparr>rooms := AList.update c (voted r p sg (if v = ''up'' then Up else Down) t) (rooms st)\<rparr>"
proof -
  have "distinct (map participantId (votes_or_empty (votes r) sg))"
    using assms(4) by (rule votes_or_empty_inv)
  from splice_first_filter [OF this, of p] assms(1-3) show ?thesis
    by (auto simp: castVote_def Let_def voted_def)
qed

lemma room_inv_voted:
  assumes "room_inv r"
  shows "room_inv (voted r p sg d t)"
proof -
  let ?new = "filter (\<lambda>x. participantId x \<noteq> p) (votes_or_empty (votes r) sg)
         @ [\<lparr>participantId = p, songId = sg, vote = d, timestamp = t\<rparr>]"
  have 1: "\<forall>v \<in> set ?new. songId v = sg"
    using votes_or_empty_inv(1) [OF assms, of sg] by auto
  have 2: "distinct (map participantId ?new)"
    using votes_or_empty_inv(2) [OF assms, of sg] by (auto simp: distinct_map_filter)
  have 3: "distinct (map fst (AList.update sg ?new (votes r)))"
    using assms by (simp add: room_inv_def distinct_update)
  have "\<forall>e \<in> set (AList.update sg ?new (votes r)).
          case e of (k, vs) \<Rightarrow> (\<forall>v \<in> set vs. songId v = k) \<and> distinct (map participantId vs)"
  proof (rule ball_update)
    show "\<forall>e \<in> set (votes r).
          case e of (k, vs) \<Rightarrow> (\<forall>v \<in> set vs. songId v = k) \<and> distinct (map participantId vs)"
      using assms by (simp add: room_inv_def)
    show "case (sg, ?new) of (k, vs) \<Rightarrow> (\<forall>v \<in> set vs. songId v = k) \<and> distinct (map participantId vs)"
      using 1 2 by simp
  qed
  with 3 show ?thesis
    by (simp add: room_inv_def voted_def)
qed

lemma store_inv_updateI:
  assumes "store_inv st" "rooms st' = AList.update c r' (rooms st)" "r_id r' = c" "room_inv r'"
  shows "store_inv st'"
  using assms set_update_subset [of c r' "rooms st"]
  by (auto simp: store_inv_def distinct_update)

lemma store_inv_deleteI:
  assumes "store_inv st" "rooms st' = AList.delete k (rooms st)"
  shows "store_inv st'"
  using assms by (auto simp: store_inv_def AList.delete_eq distinct_map_filter)

lemma room_inv_new_song:
  assumes "room_inv r"
  shows "room_inv (r\<lparr>queue := q, votes := AList.update k [] (votes r)\<rparr>)"
proof -
  have "\<forall>e \<in> set (AList.update k [] (votes r)).
          case e of (k, vs) \<Rightarrow> (\<forall>v \<in> set vs. songId v = k) \<and> distinct (map participantId vs)"
    using assms by (intro ball_update) (simp_all add: room_inv_def)
  then show ?thesis
    using assms by (simp add: room_inv_def distinct_update)
qed

lemma map_fst_map_values: "map fst (map (\<lambda>(k, v). (k, f v)) al) = map fst al"
  by (induction al) auto

lemma room_inv_purge:
  assumes "room_inv r"
  shows "room_inv (r\<lparr>participants := ps,
           votes := map (\<lambda>(sid, vs). (sid, filter (\<lambda>x. participantId x \<noteq> p) vs)) (votes r),
           isActive := b\<rparr>)"
proof -
  let ?vs = "map (\<lambda>(sid, vs). (sid, filter (\<lambda>x. participantId x \<noteq> p) vs)) (votes r)"
  have 1: "distinct (map fst ?vs)"
    using assms unfolding map_fst_map_values by (simp add: room_inv_def)
  have 2: "\<forall>(k, vs) \<in> set ?vs. (\<forall>v \<in> set vs. songId v = k) \<and> distinct (map participantId vs)"
    using assms by (auto simp: room_inv_def distinct_map_filter)
  from 1 2 show ?thesis by (simp add: room_inv_def)
qed

lemma store_inv_sweepRoom:
  assumes "store_inv st"
  shows "store_inv (sweepRoom now st e)"
proof (cases e)
  case (Pair k r)
  have "store_inv (st\<lparr>participantRooms := pr, rooms := AList.delete k (rooms st)\<rparr>)" for pr
    using assms by (rule store_inv_deleteI) simp
  with assms Pair show ?thesis by (simp add: sweepRoom_def)
qed

lemma store_inv_foldl_sweepRoom:
  "store_inv st \<Longrightarrow> store_inv (foldl (sweepRoom now) st es)"
  by (induction es arbitrary: st) (simp_all add: store_inv_sweepRoom)

lemma store_inv_create:
  assumes "store_inv st"
  shows "store_inv (snd (create nm cn av rnd u t1 t2 st))"
proof (cases "nm = [] \<or> cn = []")
  case True
  with assms show ?thesis by (simp add: create_def)
next
  case False
  let ?room = "\<lparr>r_id = generateRoomCode rnd, r_name = nm, createdBy = u, createdAt = t2,
      participants = [(u, \<lparr>p_id = u, p_name = cn, p_avatar = av, joinedAt = t1\<rparr>)],
      queue = [], currentSong = None, votes = [], isActive = True\<rparr>"
  have "store_inv (st\<lparr>rooms := AList.update (generateRoomCode rnd) ?room (rooms st),
      participantRooms := AList.update u (generateRoomCode rnd) (participantRooms st)\<rparr>)"
    using assms
    by (rule store_inv_updateI [where c = "generateRoomCode rnd" and r' = ?room])
       (simp_all add: room_inv_def)
  with False show ?thesis by (simp add: create_def Let_def)
qed

lemma store_inv_join:
  assumes "store_inv st"
  shows "store_inv (snd (join c nm av u t st))"
proof (cases "map_of (rooms st) c")
  case None
  with assms show ?thesis by (simp add: join_def)
next
  case (Some r)
  note wf = store_inv_lookup [OF assms Some]
  let ?r' = "r\<lparr>participants := AList.update u
                 \<lparr>p_id = u, p_name = nm, p_avatar = av, joinedAt = t\<rparr> (participants r)\<rparr>"
  have "store_inv (st\<lparr>rooms := AList.update c ?r' (rooms st),
                      participantRooms := AList.update u c (participantRooms st)\<rparr>)"
    by (rule store_inv_updateI [OF assms, where c = c and r' = ?r'])
       (use wf in \<open>simp_all add: room_inv_def\<close>)
  with assms Some show ?thesis by (simp add: join_def Let_def)
qed

lemma store_inv_addSong:
  assumes "store_inv st"
  shows "store_inv (snd (addSong c p f u t st))"
proof (cases "map_of (rooms st) c")
  case None
  with assms show ?thesis by (simp add: addSong_def)
next
  case (Some r)
  note wf = store_inv_lookup [OF assms Some]
  have "store_inv (st\<lparr>rooms := AList.update c (r\<lparr>queue := q, votes := AList.update u [] (votes r)\<rparr>) (rooms st)\<rparr>)" for q
    by (rule store_inv_updateI [OF assms, where c = c
              and r' = "r\<lparr>queue := q, votes := AList.update u [] (votes r)\<rparr>"])
       (use wf in \<open>simp_all add: room_inv_new_song\<close>)
  with assms Some show ?thesis by (simp add: addSong_def Let_def split: option.splits)
qed

lemma store_inv_castVote:
  assumes "store_inv st"
  shows "store_inv (snd (castVote c p sg v t st))"
proof (cases "v \<in> {''up'', ''down''} \<and> (\<exists>r. map_of (rooms st) c = Some r \<and> Map_has (participants r) p)")
  case True
  then obtain r where r: "map_of (rooms st) c = Some r" "Map_has (participants r) p"
    and v: "v \<in> {''up'', ''down''}" by blast
  note wf = store_inv_lookup [OF assms r(1)]
  let ?r' = "voted r p sg (if v = ''up'' then Up else Down) t"
  have "r_id ?r' = c"
    using wf(1) by (simp add: voted_def)
  then have "store_inv (st\<lparr>rooms := AList.update c ?r' (rooms st)\<rparr>)"
    by (intro store_inv_updateI [OF assms, where c = c and r' = ?r'] room_inv_voted [OF wf(2)])
       simp_all
  then show ?thesis
    using castVote_room [OF r v wf(2)] by simp
next
  case False
  then have "snd (castVote c p sg v t st) = st"
    by (auto simp: castVote_def Let_def split: option.splits)
  with assms show ?thesis by simp
qed

lemma store_inv_leave:
  assumes "store_inv st"
  shows "store_inv (snd (leave c p st))"
proof (cases "map_of (rooms st) c")
  case None
  with assms show ?thesis by (simp add: leave_def)
next
  case (Some r)
  note wf = store_inv_lookup [OF assms Some]
  let ?r' = "\<lambda>b. r\<lparr>participants := AList.delete p (participants r),
           votes := map (\<lambda>(sid, vs). (sid, filter (\<lambda>x. participantId x \<noteq> p) vs)) (votes r),
           isActive := b\<rparr>"
  have "store_inv (st\<lparr>rooms := AList.update c (?r' b) (rooms st),
                      participantRooms := AList.delete p (participantRooms st)\<rparr>)" for b
    by (rule store_inv_updateI [OF assms, where c = c and r' = "?r' b"])
       (use wf in \<open>simp_all add: room_inv_purge\<close>)
  with assms Some show ?thesis by (simp add: leave_def Let_def split: option.splits)
qed

lemma getRoomState_store: "snd (getRoomState c p st) = st"
  by (simp add: getRoomState_def Let_def split: option.splits)

lemma store_inv_step: "store_inv st \<Longrightarrow> store_inv (step st op)"
  by (cases op)
     (simp_all add: store_inv_create store_inv_join store_inv_addSong store_inv_castVote
        store_inv_leave getRoomState_store expirySweep_def store_inv_foldl_sweepRoom)

lemma store_inv_run: "store_inv st \<Longrightarrow> store_inv (run st ops)"
  unfolding run_def by (induction ops arbitrary: st) (simp_all add: store_inv_step)

lemma store_inv_initial: "store_inv initial_store"
  by (simp add: store_inv_def initial_store_def)

lemma store_inv_reachable: "store_inv (run initial_store ops)"
  by (rule store_inv_run [OF store_inv_initial])

section \<open>Room codes\<close>

text \<open>
  C5 fails: create does not look the generated code up. When the random digits of a
  second create repeat those of the sample room, the new room replaces it under the same
  code, and its participants are gone from the store.
\<close>

theorem create_overwrites_counterexample:
  "map_option r_name (map_of (rooms party_store) ''ABC123'') = Some ''Party''
   \<and> map_option (map fst \<circ> participants) (map_of (rooms party_store) ''ABC123'')
        = Some [''u1'', ''u2'']
   \<and> map_option r_name (map_of (rooms (step party_store
        (Create ''Rave'' ''Carol'' None ''0.abc123000'' ''u3'' 7 7))) ''ABC123'') = Some ''Rave''
   \<and> map_option (map fst \<circ> participants) (map_of (rooms (step party_store
        (Create ''Rave'' ''Carol'' None ''0.abc123000'' ''u3'' 7 7))) ''ABC123'') = Some [''u3'']
   \<and> map fst (rooms (step party_store
        (Create ''Rave'' ''Carol'' None ''0.abc123000'' ''u3'' 7 7))) = [''ABC123'']"
  by code_simp

text \<open>
  C5, amended. In every reachable store the stored rooms have pairwise distinct codes
  and each is stored under its own code. Create leaves every room stored under another
  code unchanged, and when the generated code is not stored it appends the new room and
  keeps all stored rooms.
\<close>

theorem room_codes_distinct:
  "distinct (map (\<lambda>e. r_id (snd e)) (rooms (run initial_store ops)))
   \<and> (\<forall>(k, r) \<in> set (rooms (run initial_store ops)). r_id r = k)
   \<and> (\<forall>c. c \<noteq> generateRoomCode rnd \<longrightarrow>
         map_of (rooms (snd (create nm cn av rnd u t1 t2 st))) c = map_of (rooms st) c)
   \<and> (nm \<noteq> [] \<and> cn \<noteq> [] \<and> map_of (rooms st) (generateRoomCode rnd) = None \<longrightarrow>
         (\<exists>room. rooms (snd (create nm cn av rnd u t1 t2 st))
                    = rooms st @ [(generateRoomCode rnd, room)]))"
proof (intro conjI allI impI)
  let ?st = "run initial_store ops"
  have inv: "store_inv ?st" by (rule store_inv_reachable)
  then show keys: "\<forall>(k, r) \<in> set (rooms ?st). r_id r = k"
    by (auto simp: store_inv_def)
  then have eq: "map (\<lambda>e. r_id (snd e)) (rooms ?st) = map fst (rooms ?st)"
    by (intro map_cong) auto
  show "distinct (map (\<lambda>e. r_id (snd e)) (rooms ?st))"
    unfolding eq using inv by (simp add: store_inv_def)
next
  fix c assume "c \<noteq> generateRoomCode rnd"
  then show "map_of (rooms (snd (create nm cn av rnd u t1 t2 st))) c = map_of (rooms st) c"
    by (simp add: create_def Let_def update_conv')
next
  assume a: "nm \<noteq> [] \<and> cn \<noteq> [] \<and> map_of (rooms st) (generateRoomCode rnd) = None"
  then have "generateRoomCode rnd \<notin> fst ` set (rooms st)"
    by (simp add: map_of_eq_None_iff)
  with a show "\<exists>room. rooms (snd (create nm cn av rnd u t1 t2 st))
                    = rooms st @ [(generateRoomCode rnd, room)]"
    by (simp add: create_def Let_def update_fresh_append)
qed

text \<open>
  The three sample rooms, and a create with a fresh code on the sample store.
\<close>

theorem room_codes_distinct_witness:
  "distinct (map (\<lambda>e. r_id (snd e)) (rooms (run initial_store sweep_ops)))
   \<and> list_all (\<lambda>(k, r). r_id r = k) (rooms (run initial_store sweep_ops))
   \<and> map_of (rooms (snd (create ''Rave'' ''Carol'' None ''0.zzz999'' ''u3'' 7 7 party_store))) ''ABC123''
       = map_of (rooms party_store) ''ABC123''
   \<and> (\<exists>room. rooms (snd (create ''Rave'' ''Carol'' None ''0.zzz999'' ''u3'' 7 7 party_store))
                = rooms party_store @ [(''ZZZ999'', room)])"
proof -
  have code: "generateRoomCode ''0.zzz999'' = ''ZZZ999''" by code_simp
  have h1: "''ABC123'' \<noteq> generateRoomCode ''0.zzz999''" by code_simp
  have h2: "''Rave'' \<noteq> [] \<and> ''Carol'' \<noteq> []
            \<and> map_of (rooms party_store) (generateRoomCode ''0.zzz999'') = None" by code_simp
  note all = room_codes_distinct [of sweep_ops "''0.zzz999''" "''Rave''" "''Carol''" None "''u3''" 7 7
      party_store]
  note c1 = all [THEN conjunct1]
  note c2 = all [THEN conjunct2, THEN conjunct1, folded list_all_iff]
  note c3 = all [THEN conjunct2, THEN conjunct2, THEN conjunct1, rule_format, OF h1]
  note c4 = all [THEN conjunct2, THEN conjunct2, THEN conjunct2, THEN mp, OF h2]
  from c1 c2 c3 c4 show ?thesis unfolding code by (intro conjI)
qed

section \<open>The expiry sweep\<close>

lemma rooms_sweepRoom:
  "rooms (sweepRoom now st (k, r)) =
     (if roomExpired now r then filter (\<lambda>(c, _). c \<noteq> k) (rooms st) else rooms st)"
  by (auto simp: sweepRoom_def AList.delete_eq intro: filter_cong)

lemma expired_keys_Cons:
  "fst ` {e \<in> set ((k, r) # es). Q (snd e)} =
     (if Q r then insert k (fst ` {e \<in> set es. Q (snd e)}) else fst ` {e \<in> set es. Q (snd e)})"
  by force

lemma rooms_foldl_sweepRoom:
  "rooms (foldl (sweepRoom now) st es) =
     filter (\<lambda>(c, _). c \<notin> fst ` {e \<in> set es. roomExpired now (snd e)}) (rooms st)"
proof (induction es arbitrary: st)
  case Nil
  show ?case by simp
next
  case (Cons e es)
  obtain k r where e: "e = (k, r)" by (cases e)
  show ?case
    unfolding e foldl_Cons Cons.IH rooms_sweepRoom expired_keys_Cons
    by (cases "roomExpired now r") (simp_all add: case_prod_unfold)
qed

lemma index_delete_all:
  "map_of (foldl (\<lambda>m q. AList.delete (fst q) m) pr ps) p =
     (if p \<in> fst ` set ps then None else map_of pr p)"
  by (induction ps arbitrary: pr) (auto simp: delete_conv')

lemma index_sweepRoom_None:
  "map_of (participantRooms st) p = None \<Longrightarrow> map_of (participantRooms (sweepRoom now st e)) p = None"
  by (cases e) (simp add: sweepRoom_def index_delete_all)

lemma index_foldl_sweepRoom_None:
  "map_of (participantRooms st) p = None \<Longrightarrow>
   map_of (participantRooms (foldl (sweepRoom now) st es)) p = None"
  by (induction es arbitrary: st) (simp_all add: index_sweepRoom_None)

lemma index_foldl_sweepRoom:
  assumes "(k, r) \<in> set es" "roomExpired now r" "p \<in> fst ` set (participants r)"
  shows "map_of (participantRooms (foldl (sweepRoom now) st es)) p = None"
  using assms
proof (induction es arbitrary: st)
  case Nil
  then show ?case by simp
next
  case (Cons e es)
  show ?case
  proof (cases "e = (k, r)")
    case True
    have "map_of (participantRooms (sweepRoom now st (k, r))) p = None"
      using Cons.prems(2,3) by (simp add: sweepRoom_def index_delete_all)
    with True show ?thesis by (simp add: index_foldl_sweepRoom_None)
  next
    case False
    with Cons.prems have "(k, r) \<in> set es" by simp
    from Cons.IH [OF this Cons.prems(2,3)] show ?thesis by simp
  qed
qed

text \<open>
  C9. One sweep deletes a stored room if and only if it is inactive or older than 24
  hours, leaves the other rooms as they are and in their order, and removes the index
  entry of every participant of a deleted room. The keys of the store are distinct, as
  they are in every reachable store.
\<close>

theorem expirySweep_removes_expired:
  assumes "distinct (map fst (rooms st))"
  shows "rooms (expirySweep now st) =
           filter (\<lambda>(c, r). \<not> (\<not> isActive r \<or> now - createdAt r > 24 * 60 * 60 * 1000)) (rooms st)
     \<and> (\<forall>c r. map_of (rooms st) c = Some r \<longrightarrow>
           map_of (rooms (expirySweep now st)) c =
             (if \<not> isActive r \<or> now - createdAt r > 24 * 60 * 60 * 1000 then None else Some r))
     \<and> (\<forall>(c, r) \<in> set (rooms st). \<not> isActive r \<or> now - createdAt r > 24 * 60 * 60 * 1000 \<longrightarrow>
           (\<forall>p \<in> fst ` set (participants r).
              map_of (participantRooms (expirySweep now st)) p = None))"
proof (intro conjI allI impI)
  have expired: "(\<not> isActive r \<or> now - createdAt r > 24 * 60 * 60 * 1000) = roomExpired now r" for r
    by (simp add: roomExpired_def ROOM_TIMEOUT_def)
  have key: "c \<in> fst ` {e \<in> set (rooms st). roomExpired now (snd e)} \<longleftrightarrow> roomExpired now r"
    if "(c, r) \<in> set (rooms st)" for c r
  proof
    assume "c \<in> fst ` {e \<in> set (rooms st). roomExpired now (snd e)}"
    then obtain r2 where r2: "(c, r2) \<in> set (rooms st)" "roomExpired now r2" by auto
    from eq_key_imp_eq_value [OF assms that r2(1)] r2(2) show "roomExpired now r" by simp
  next
    assume "roomExpired now r"
    with that show "c \<in> fst ` {e \<in> set (rooms st). roomExpired now (snd e)}" by force
  qed
  show rooms_eq: "rooms (expirySweep now st) =
           filter (\<lambda>(c, r). \<not> (\<not> isActive r \<or> now - createdAt r > 24 * 60 * 60 * 1000)) (rooms st)"
    unfolding expirySweep_def rooms_foldl_sweepRoom expired
  proof (rule filter_cong [OF refl])
    fix x assume x: "x \<in> set (rooms st)"
    obtain c r where cr: "x = (c, r)" by (cases x)
    from key [of c r] x cr
    show "(case x of (c, _) \<Rightarrow> c \<notin> fst ` {e \<in> set (rooms st). roomExpired now (snd e)})
            = (case x of (c, r) \<Rightarrow> \<not> roomExpired now r)"
      by simp
  qed
  have dist: "distinct (map fst (filter (\<lambda>(c, r). \<not> roomExpired now r) (rooms st)))"
    using assms by (simp add: distinct_map_filter)
  show "map_of (rooms (expirySweep now st)) c =
          (if \<not> isActive r \<or> now - createdAt r > 24 * 60 * 60 * 1000 then None else Some r)"
    if "map_of (rooms st) c = Some r" for c r
  proof -
    from that have mem: "(c, r) \<in> set (rooms st)" by (rule map_of_SomeD)
    show ?thesis
    proof (cases "roomExpired now r")
      case True
      have "c \<notin> fst ` set (filter (\<lambda>(c, r). \<not> roomExpired now r) (rooms st))"
      proof
        assume "c \<in> fst ` set (filter (\<lambda>(c, r). \<not> roomExpired now r) (rooms st))"
        then obtain r2 where r2: "(c, r2) \<in> set (rooms st)" "\<not> roomExpired now r2" by auto
        from eq_key_imp_eq_value [OF assms mem r2(1)] r2(2) True show False by simp
      qed
      then have "map_of (filter (\<lambda>(c, r). \<not> roomExpired now r) (rooms st)) c = None"
        by (simp add: map_of_eq_None_iff)
      with True show ?thesis unfolding rooms_eq expired by simp
    next
      case False
      with mem have "(c, r) \<in> set (filter (\<lambda>(c, r). \<not> roomExpired now r) (rooms st))" by simp
      with dist have "map_of (filter (\<lambda>(c, r). \<not> roomExpired now r) (rooms st)) c = Some r"
        by (rule map_of_is_SomeI)
      with False show ?thesis unfolding rooms_eq expired by simp
    qed
  qed
  show "\<forall>(c, r) \<in> set (rooms st). \<not> isActive r \<or> now - createdAt r > 24 * 60 * 60 * 1000 \<longrightarrow>
           (\<forall>p \<in> fst ` set (participants r).
              map_of (participantRooms (expirySweep now st)) p = None)"
    unfolding expired expirySweep_def
  proof (intro ballI, unfold case_prod_unfold, intro impI ballI)
    fix e p
    assume "e \<in> set (rooms st)" "roomExpired now (snd e)" "p \<in> fst ` set (participants (snd e))"
    then show "map_of (participantRooms (foldl (sweepRoom now) st (rooms st))) p = None"
      by (intro index_foldl_sweepRoom [of "fst e" "snd e"]) simp_all
  qed
qed

text \<open>
  An old active room, a closed room and a fresh room: the sweep keeps the fresh one.
\<close>

theorem expirySweep_removes_expired_witness:
  "distinct (map fst (rooms (run initial_store sweep_ops)))
   \<and> map fst (rooms (run initial_store sweep_ops)) = [''AAA111'', ''BBB222'', ''CCC333'']
   \<and> rooms (expirySweep 86400002 (run initial_store sweep_ops)) =
        filter (\<lambda>(c, r). \<not> (\<not> isActive r \<or> 86400002 - createdAt r > 24 * 60 * 60 * 1000))
          (rooms (run initial_store sweep_ops))
   \<and> map_of (rooms (expirySweep 86400002 (run initial_store sweep_ops))) ''AAA111'' = None
   \<and> map_of (rooms (expirySweep 86400002 (run initial_store sweep_ops))) ''BBB222'' = None
   \<and> map_of (rooms (expirySweep 86400002 (run initial_store sweep_ops))) ''CCC333''
        = map_of (rooms (run initial_store sweep_ops)) ''CCC333''
   \<and> map_of (participantRooms (run initial_store sweep_ops)) ''u4'' = Some ''BBB222''
   \<and> map_of (participantRooms (expirySweep 86400002 (run initial_store sweep_ops))) ''u4'' = None"
proof -
  let ?st = "run initial_store sweep_ops"
  have h: "distinct (map fst (rooms ?st))" by code_simp
  have k: "map fst (rooms ?st) = [''AAA111'', ''BBB222'', ''CCC333'']" by code_simp
  have idx: "map_of (participantRooms ?st) ''u4'' = Some ''BBB222''" by code_simp
  have "map_of (rooms ?st) ''AAA111'' \<noteq> None" "map_of (rooms ?st) ''BBB222'' \<noteq> None"
    "map_of (rooms ?st) ''CCC333'' \<noteq> None" by code_simp+
  then obtain ra rb rc where r: "map_of (rooms ?st) ''AAA111'' = Some ra"
    "map_of (rooms ?st) ''BBB222'' = Some rb" "map_of (rooms ?st) ''CCC333'' = Some rc"
    by blast
  have "map_option (\<lambda>r. (isActive r, createdAt r)) (map_of (rooms ?st) ''AAA111'') = Some (True, 1)"
    "map_option (\<lambda>r. (isActive r, map fst (participants r))) (map_of (rooms ?st) ''BBB222'')
       = Some (False, [''u4''])"
    "map_option (\<lambda>r. (isActive r, createdAt r)) (map_of (rooms ?st) ''CCC333'') = Some (True, 86000005)"
    by code_simp+
  with r have f: "isActive ra" "createdAt ra = 1" "\<not> isActive rb" "map fst (participants rb) = [''u4'']"
    "isActive rc" "createdAt rc = 86000005" by simp_all
  have mem: "''u4'' \<in> fst ` set (participants rb)"
    using f(4) by (metis list.set_intros(1) set_map)
  note all = expirySweep_removes_expired [OF h, of 86400002]
  note c1 = all [THEN conjunct1]
  note c2 = all [THEN conjunct2, THEN conjunct1, rule_format]
  note c3 = all [THEN conjunct2, THEN conjunct2, rule_format, OF map_of_SomeD [OF r(2)]]
  have a: "map_of (rooms (expirySweep 86400002 ?st)) ''AAA111'' = None"
    using c2 [OF r(1)] f by simp
  have b: "map_of (rooms (expirySweep 86400002 ?st)) ''BBB222'' = None"
    using c2 [OF r(2)] f by simp
  have c: "map_of (rooms (expirySweep 86400002 ?st)) ''CCC333'' = map_of (rooms ?st) ''CCC333''"
    using c2 [OF r(3)] f r(3) by simp
  have d: "map_of (participantRooms (expirySweep 86400002 ?st)) ''u4'' = None"
    using c3 f(3) mem by blast
  from h k c1 a b c idx d show ?thesis by (intro conjI)
qed

lemma expirySweep_sample:
  "map fst (rooms (expirySweep 86400002 (run initial_store sweep_ops))) = [''CCC333'']
   \<and> participantRooms (expirySweep 86400002 (run initial_store sweep_ops)) = [(''u3'', ''CCC333'')]"
  by code_simp

section \<open>Keys of the votes mapping\<close>

text \<open>
  C6 fails: castVote does not check the song id. A vote of the creator for an id that
  was never queued leaves a votes entry under that id while the queue is empty.
\<close>

theorem vote_unknown_song_counterexample:
  "map_option (\<lambda>r. (map fst (votes r), map s_id (queue r)))
     (map_of (rooms (run initial_store
        [Create ''Party'' ''Alice'' None ''0.abc123xyz'' ''u1'' 1 1,
         CastVote ''ABC123'' ''u1'' ''ghost'' ''up'' 2])) ''ABC123'')
   = Some ([''ghost''], [])"
  by code_simp

lemma keys_map_values: "fst ` set (map (\<lambda>(k, v). (k, f v)) al) = fst ` set al"
  by (induction al) auto

lemma keys_bounded_lookup:
  "keys_bounded X st \<Longrightarrow> map_of (rooms st) c = Some r \<Longrightarrow>
     fst ` set (votes r) \<subseteq> s_id ` set (queue r) \<union> X c"
  by (simp add: keys_bounded_def)

lemma keys_bounded_sub:
  assumes "keys_bounded X st"
    and "\<And>c r. map_of (rooms st') c = Some r \<Longrightarrow> map_of (rooms st) c = Some r"
    and "\<And>c. X c \<subseteq> Y c"
  shows "keys_bounded Y st'"
  unfolding keys_bounded_def
proof (intro allI impI)
  fix c r assume "map_of (rooms st') c = Some r"
  then have "map_of (rooms st) c = Some r" by (rule assms(2))
  from keys_bounded_lookup [OF assms(1) this] assms(3) [of c]
  show "fst ` set (votes r) \<subseteq> s_id ` set (queue r) \<union> Y c" by blast
qed

lemma keys_bounded_same:
  assumes "keys_bounded X st" "st' = st" "\<And>c. X c \<subseteq> Y c"
  shows "keys_bounded Y st'"
  using assms(1) by (rule keys_bounded_sub) (simp_all add: assms)

lemma keys_bounded_update:
  assumes "keys_bounded X st" "rooms st' = AList.update k r1 (rooms st)"
    and "fst ` set (votes r1) \<subseteq> s_id ` set (queue r1) \<union> Y k"
    and "\<And>c. X c \<subseteq> Y c"
  shows "keys_bounded Y st'"
  unfolding keys_bounded_def
proof (intro allI impI)
  fix c r assume r: "map_of (rooms st') c = Some r"
  show "fst ` set (votes r) \<subseteq> s_id ` set (queue r) \<union> Y c"
  proof (cases "c = k")
    case True
    with r assms(2,3) show ?thesis by (simp add: update_conv')
  next
    case False
    with r assms(2) have "map_of (rooms st) c = Some r" by (simp add: update_conv')
    from keys_bounded_lookup [OF assms(1) this] assms(4) [of c] show ?thesis by blast
  qed
qed

text \<open>
  The shape of the store each handler leaves.
\<close>

lemma create_cases:
  obtains "snd (create nm cn av rnd u t1 t2 st) = st"
  | r1 where "votes r1 = []" "queue r1 = []" "isActive r1"
      "rooms (snd (create nm cn av rnd u t1 t2 st)) = AList.update (generateRoomCode rnd) r1 (rooms st)"
proof (cases "nm = [] \<or> cn = []")
  case True
  then have "snd (create nm cn av rnd u t1 t2 st) = st" by (simp add: create_def)
  then show ?thesis by (rule that(1))
next
  case False
  let ?r = "\<lparr>r_id = generateRoomCode rnd, r_name = nm, createdBy = u, createdAt = t2,
      participants = [(u, \<lparr>p_id = u, p_name = cn, p_avatar = av, joinedAt = t1\<rparr>)],
      queue = [], currentSong = None, votes = [], isActive = True\<rparr>"
  have "rooms (snd (create nm cn av rnd u t1 t2 st)) = AList.update (generateRoomCode rnd) ?r (rooms st)"
    using False by (simp add: create_def Let_def)
  then show ?thesis by (intro that(2) [of ?r]) simp_all
qed

lemma join_cases:
  obtains "snd (join c nm av u t st) = st"
  | r0 ps where "map_of (rooms st) c = Some r0"
      "rooms (snd (join c nm av u t st)) = AList.update c (r0\<lparr>participants := ps\<rparr>) (rooms st)"
proof (cases "snd (join c nm av u t st) = st")
  case True
  then show ?thesis by (rule that(1))
next
  case False
  then obtain r0 where r0: "map_of (rooms st) c = Some r0" and ok: "nm \<noteq> []" "isActive r0"
    by (auto simp: join_def split: option.splits if_splits)
  then have "rooms (snd (join c nm av u t st)) = AList.update c
      (r0\<lparr>participants := AList.update u \<lparr>p_id = u, p_name = nm, p_avatar = av, joinedAt = t\<rparr>
         (participants r0)\<rparr>) (rooms st)"
    by (simp add: join_def Let_def)
  with r0 show ?thesis by (rule that(2))
qed

lemma addSong_cases:
  obtains "snd (addSong c p f u t st) = st"
  | r0 s where "map_of (rooms st) c = Some r0" "s_id s = u"
      "rooms (snd (addSong c p f u t st)) =
        AList.update c (r0\<lparr>queue := queue r0 @ [s], votes := AList.update (s_id s) [] (votes r0)\<rparr>)
          (rooms st)"
proof (cases "snd (addSong c p f u t st) = st")
  case True
  then show ?thesis by (rule that(1))
next
  case False
  then obtain r0 x where r0: "map_of (rooms st) c = Some r0" and ok: "Map_has (participants r0) p" "f = Some x"
    by (auto simp: addSong_def split: option.splits if_splits)
  let ?s = "\<lparr>s_id = u, title = f_title x, artist = f_artist x, albumArt = f_albumArt x,
             duration = f_duration x, spotifyId = f_spotifyId x, addedBy = p, addedAt = t\<rparr>"
  from r0 ok have "rooms (snd (addSong c p f u t st)) = AList.update c
      (r0\<lparr>queue := queue r0 @ [?s], votes := AList.update (s_id ?s) [] (votes r0)\<rparr>) (rooms st)"
    by (simp add: addSong_def Let_def)
  with r0 show ?thesis by (intro that(2) [of r0 ?s]) simp_all
qed

lemma castVote_cases:
  obtains "snd (castVote c p sg v t st) = st"
  | r0 vs where "map_of (rooms st) c = Some r0"
      "rooms (snd (castVote c p sg v t st)) =
        AList.update c (r0\<lparr>votes := AList.update sg vs (votes r0)\<rparr>) (rooms st)"
proof (cases "snd (castVote c p sg v t st) = st")
  case True
  then show ?thesis by (rule that(1))
next
  case False
  then obtain r0 where r0: "map_of (rooms st) c = Some r0"
    and ok: "Map_has (participants r0) p" "v \<in> set [''up'', ''down'']"
    by (auto simp: castVote_def split: option.splits if_splits)
  let ?old = "votes_or_empty (votes r0) sg"
  let ?i = "findIndex (\<lambda>x. participantId x = p) ?old"
  let ?vs = "(if ?i \<ge> 0 then splice_one ?old ?i else ?old)
      @ [\<lparr>participantId = p, songId = sg, vote = (if v = ''up'' then Up else Down), timestamp = t\<rparr>]"
  from r0 ok have "rooms (snd (castVote c p sg v t st)) =
      AList.update c (r0\<lparr>votes := AList.update sg ?vs (votes r0)\<rparr>) (rooms st)"
    by (simp add: castVote_def Let_def)
  with r0 show ?thesis by (rule that(2))
qed

lemma leave_cases:
  obtains "snd (leave c p st) = st"
  | r0 ps b where "map_of (rooms st) c = Some r0"
      "rooms (snd (leave c p st)) =
        AList.update c (r0\<lparr>participants := ps,
            votes := map (\<lambda>(sid, vs). (sid, filter (\<lambda>x. participantId x \<noteq> p) vs)) (votes r0),
            isActive := b\<rparr>) (rooms st)"
proof (cases "snd (leave c p st) = st")
  case True
  then show ?thesis by (rule that(1))
next
  case False
  then obtain r0 pt where r0: "map_of (rooms st) c = Some r0" "map_of (participants r0) p = Some pt"
    by (auto simp: leave_def split: option.splits)
  then have "rooms (snd (leave c p st)) =
        AList.update c (r0\<lparr>participants := AList.delete p (participants r0),
            votes := map (\<lambda>(sid, vs). (sid, filter (\<lambda>x. participantId x \<noteq> p) vs)) (votes r0),
            isActive := (if length (AList.delete p (participants r0)) = 0 \<or> p = createdBy r0
                         then False else isActive r0)\<rparr>) (rooms st)"
    by (simp add: leave_def Let_def)
  with r0(1) show ?thesis by (rule that(2))
qed

lemma keys_bounded_step:
  assumes "keys_bounded X st"
  shows "keys_bounded (\<lambda>c. X c \<union> voted_ids c [op]) (step st op)"
proof (cases op)
  case (Create nm cn av rnd u t1 t2)
  show ?thesis
  proof (cases rule: create_cases [of nm cn av rnd u t1 t2 st])
    case 1
    with Create show ?thesis by (intro keys_bounded_same [OF assms]) simp_all
  next
    case (2 r1)
    from assms 2(4) show ?thesis
      unfolding Create step.simps by (rule keys_bounded_update) (simp_all add: 2)
  qed
next
  case (Join c' nm av u t)
  show ?thesis
  proof (cases rule: join_cases [of c' nm av u t st])
    case 1
    with Join show ?thesis by (intro keys_bounded_same [OF assms]) simp_all
  next
    case (2 r0 ps)
    from assms 2(2) show ?thesis
      unfolding Join step.simps
      by (rule keys_bounded_update) (use keys_bounded_lookup [OF assms 2(1)] in auto)
  qed
next
  case (AddSong c' p f u t)
  show ?thesis
  proof (cases rule: addSong_cases [of c' p f u t st])
    case 1
    with AddSong show ?thesis by (intro keys_bounded_same [OF assms]) simp_all
  next
    case (2 r0 s)
    from assms 2(3) show ?thesis
      unfolding AddSong step.simps
      by (rule keys_bounded_update)
         (use keys_bounded_lookup [OF assms 2(1)] in \<open>auto simp: dom_update\<close>)
  qed
next
  case (CastVote c' p sg v t)
  show ?thesis
  proof (cases rule: castVote_cases [of c' p sg v t st])
    case 1
    with CastVote show ?thesis by (intro keys_bounded_same [OF assms]) simp_all
  next
    case (2 r0 vs)
    from assms 2(2) show ?thesis
      unfolding CastVote step.simps
      by (rule keys_bounded_update)
         (use keys_bounded_lookup [OF assms 2(1)] in \<open>auto simp: dom_update\<close>)
  qed
next
  case (GetRoomState c' p)
  then show ?thesis by (intro keys_bounded_same [OF assms]) (simp_all add: getRoomState_store)
next
  case (Leave c' p)
  show ?thesis
  proof (cases rule: leave_cases [of c' p st])
    case 1
    with Leave show ?thesis by (intro keys_bounded_same [OF assms]) simp_all
  next
    case (2 r0 ps b)
    from assms 2(2) show ?thesis
      unfolding Leave step.simps
      by (rule keys_bounded_update)
         (use keys_bounded_lookup [OF assms 2(1)] in \<open>auto simp: keys_map_values\<close>)
  qed
next
  case (ExpirySweep t)
  show ?thesis
    unfolding ExpirySweep step.simps using assms
  proof (rule keys_bounded_sub)
    fix c r assume "map_of (rooms (expirySweep t st)) c = Some r"
    then show "map_of (rooms st) c = Some r"
      unfolding expirySweep_def by (rule foldl_sweepRoom_rooms_sub)
  qed simp
qed

lemma voted_ids_Cons: "voted_ids c (op # ops) = voted_ids c [op] \<union> voted_ids c ops"
  by (cases op) auto

lemma keys_bounded_run:
  "keys_bounded X st \<Longrightarrow> keys_bounded (\<lambda>c. X c \<union> voted_ids c ops) (run st ops)"
proof (induction ops arbitrary: st X)
  case Nil
  then show ?case by (simp add: run_def)
next
  case (Cons op ops)
  from Cons.IH [OF keys_bounded_step [OF Cons.prems, of op]]
  have "keys_bounded (\<lambda>c. X c \<union> voted_ids c [op] \<union> voted_ids c ops) (run (step st op) ops)" .
  moreover have "X c \<union> voted_ids c [op] \<union> voted_ids c ops = X c \<union> voted_ids c (op # ops)" for c
    using voted_ids_Cons [of c op ops] by auto
  ultimately show ?case by (simp add: run_def)
qed

text \<open>
  C6, amended. In every reachable store, every key of a room's votes mapping is the id
  of a song in the room's queue or a song id that a castVote request for that room named;
  so only castVote can introduce a key for a song that was never added.
\<close>

theorem votes_keys_queue_or_voted:
  "map_of (rooms (run initial_store ops)) c = Some r \<longrightarrow>
     fst ` set (votes r) \<subseteq> s_id ` set (queue r) \<union> voted_ids c ops"
proof -
  have "keys_bounded (\<lambda>c. {}) initial_store"
    by (simp add: keys_bounded_def initial_store_def)
  from keys_bounded_run [OF this, of ops] show ?thesis
    by (simp add: keys_bounded_def)
qed

text \<open>
  The sample session followed by a vote for an unknown id.
\<close>

theorem votes_keys_queue_or_voted_witness:
  "\<exists>r. map_of (rooms (run initial_store
            (party_ops @ party_votes @ [CastVote ''ABC123'' ''u1'' ''ghost'' ''up'' 7]))) ''ABC123''
          = Some r
      \<and> fst ` set (votes r) \<subseteq> s_id ` set (queue r)
           \<union> voted_ids ''ABC123'' (party_ops @ party_votes @ [CastVote ''ABC123'' ''u1'' ''ghost'' ''up'' 7])"
proof -
  let ?ops = "party_ops @ party_votes @ [CastVote ''ABC123'' ''u1'' ''ghost'' ''up'' 7]"
  have "map_of (rooms (run initial_store ?ops)) ''ABC123'' \<noteq> None" by code_simp
  then obtain r where r: "map_of (rooms (run initial_store ?ops)) ''ABC123'' = Some r" by blast
  with votes_keys_queue_or_voted [of ?ops "''ABC123''" r] show ?thesis by blast
qed

section \<open>One vote per participant and song\<close>

lemma votes_or_empty_update:
  "votes_or_empty (AList.update k vs al) sg = (if sg = k then vs else votes_or_empty al sg)"
  by (simp add: votes_or_empty_def update_conv')

lemma stored_alist:
  assumes "distinct (map fst al)" "\<forall>(k, vs) \<in> set al. \<forall>v \<in> set vs. songId v = k"
  shows "filter (\<lambda>x. participantId x = p \<and> songId x = sg) (concat (map snd al)) =
         filter (\<lambda>x. participantId x = p) (votes_or_empty al sg)"
  using assms
proof (induction al)
  case Nil
  show ?case by (simp add: votes_or_empty_def)
next
  case (Cons e al)
  obtain k vs where e: "e = (k, vs)" by (cases e)
  from Cons.prems e have vs: "\<forall>v \<in> set vs. songId v = k" by simp
  from Cons have IH: "filter (\<lambda>x. participantId x = p \<and> songId x = sg) (concat (map snd al)) =
         filter (\<lambda>x. participantId x = p) (votes_or_empty al sg)" by simp
  show ?case
  proof (cases "k = sg")
    case True
    with Cons.prems(1) e have "map_of al sg = None"
      by (simp add: map_of_eq_None_iff)
    then have rest: "votes_or_empty al sg = []" by (simp add: votes_or_empty_def)
    have "filter (\<lambda>x. participantId x = p \<and> songId x = sg) vs = filter (\<lambda>x. participantId x = p) vs"
      using vs True by (intro filter_cong) auto
    with True e IH rest show ?thesis by (simp add: votes_or_empty_def)
  next
    case False
    have "filter (\<lambda>x. participantId x = p \<and> songId x = sg) vs = []"
      using vs False by (auto simp: filter_empty_conv)
    with False e IH show ?thesis by (simp add: votes_or_empty_def)
  qed
qed

lemma stored_votes_votes_of: "room_inv r \<Longrightarrow> stored_votes r p sg = votes_of r p sg"
  unfolding stored_votes_def votes_of_def room_inv_def
  by (intro stored_alist) auto

lemma length_filter_distinct_key:
  "distinct (map f xs) \<Longrightarrow> length (filter (\<lambda>x. f x = a) xs) \<le> 1"
proof (induction xs)
  case Nil
  show ?case by simp
next
  case (Cons x xs)
  show ?case
  proof (cases "f x = a")
    case True
    from Cons.prems have "f x \<notin> f ` set xs" by simp
    with True have "\<forall>y \<in> set xs. f y \<noteq> a" by blast
    then have "filter (\<lambda>x. f x = a) xs = []" by (simp add: filter_empty_conv)
    with True show ?thesis by simp
  next
    case False
    with Cons show ?thesis by simp
  qed
qed

lemma stored_votes_le_one:
  assumes "room_inv r"
  shows "length (stored_votes r p sg) \<le> 1"
  unfolding stored_votes_votes_of [OF assms] votes_of_def
  using votes_or_empty_inv(2) [OF assms] by (rule length_filter_distinct_key)

lemma votes_of_voted:
  "votes_of (voted r p' sg' d t) p sg =
     (if sg' = sg \<and> p' = p then [\<lparr>participantId = p, songId = sg, vote = d, timestamp = t\<rparr>]
      else votes_of r p sg)"
proof -
  have "filter (\<lambda>x. participantId x = p) (filter (\<lambda>x. participantId x \<noteq> p') xs) =
          (if p' = p then [] else filter (\<lambda>x. participantId x = p) xs)" for xs :: "Vote list"
    by (induction xs) auto
  then show ?thesis
    by (auto simp: votes_of_def voted_def votes_or_empty_update)
qed

lemma castVote_step_votes:
  assumes "store_inv st" "map_of (rooms st) c = Some r" "Map_has (participants r) p"
  shows "\<exists>r1. map_of (rooms (step st (CastVote c' p' sg' v t))) c = Some r1
           \<and> participants r1 = participants r
           \<and> votes_of r1 p sg =
               (case cast_on c p sg (CastVote c' p' sg' v t) of
                  None \<Rightarrow> votes_of r p sg
                | Some (d, t') \<Rightarrow> [\<lparr>participantId = p, songId = sg, vote = d, timestamp = t'\<rparr>])"
proof (cases "v \<in> {''up'', ''down''} \<and> (\<exists>r0. map_of (rooms st) c' = Some r0 \<and> Map_has (participants r0) p')")
  case False
  then have same: "snd (castVote c' p' sg' v t st) = st"
    by (auto simp: castVote_def Let_def split: option.splits)
  from False assms have "cast_on c p sg (CastVote c' p' sg' v t) = None"
    by auto
  with same assms show ?thesis by simp
next
  case True
  then obtain r0 where r0: "map_of (rooms st) c' = Some r0" "Map_has (participants r0) p'"
    and v: "v \<in> {''up'', ''down''}" by blast
  let ?d = "if v = ''up'' then Up else Down"
  have st': "snd (castVote c' p' sg' v t st) = st\<lparr>rooms := AList.update c' (voted r0 p' sg' ?d t) (rooms st)\<rparr>"
    using r0 v store_inv_lookup(2) [OF assms(1) r0(1)] by (rule castVote_room)
  show ?thesis
  proof (cases "c' = c")
    case False
    with st' assms show ?thesis by (simp add: update_conv')
  next
    case True
    with r0 assms have eq: "r0 = r" by simp
    have "map_of (rooms (step st (CastVote c' p' sg' v t))) c = Some (voted r p' sg' ?d t)"
      using st' True eq by (simp add: update_conv')
    moreover have "participants (voted r p' sg' ?d t) = participants r"
      by (simp add: voted_def)
    moreover have "votes_of (voted r p' sg' ?d t) p sg =
               (case cast_on c p sg (CastVote c' p' sg' v t) of
                  None \<Rightarrow> votes_of r p sg
                | Some (d, t') \<Rightarrow> [\<lparr>participantId = p, songId = sg, vote = d, timestamp = t'\<rparr>])"
      using True v by (simp add: votes_of_voted)
    ultimately show ?thesis by blast
  qed
qed

lemma castVotes_run_votes:
  assumes "store_inv st" "\<forall>op \<in> set ops. is_castVote op"
    and "map_of (rooms st) c = Some r" "Map_has (participants r) p"
  shows "\<exists>r'. map_of (rooms (run st ops)) c = Some r'
           \<and> participants r' = participants r
           \<and> votes_of r' p sg =
               (case last_cast c p sg ops of
                  None \<Rightarrow> votes_of r p sg
                | Some (d, t) \<Rightarrow> [\<lparr>participantId = p, songId = sg, vote = d, timestamp = t\<rparr>])"
  using assms
proof (induction ops arbitrary: st r)
  case Nil
  then show ?case by (simp add: run_def)
next
  case (Cons op ops)
  from Cons.prems(2) obtain c' p' sg' v t where op: "op = CastVote c' p' sg' v t"
    by (cases op) auto
  from castVote_step_votes [OF Cons.prems(1,3,4), of c' p' sg' v t sg]
  obtain r1 where r1: "map_of (rooms (step st op)) c = Some r1" "participants r1 = participants r"
    and v1: "votes_of r1 p sg =
               (case cast_on c p sg op of
                  None \<Rightarrow> votes_of r p sg
                | Some (d, t') \<Rightarrow> [\<lparr>participantId = p, songId = sg, vote = d, timestamp = t'\<rparr>])"
    unfolding op by blast
  have "store_inv (step st op)" using Cons.prems(1) by (rule store_inv_step)
  moreover have "\<forall>op \<in> set ops. is_castVote op" using Cons.prems(2) by simp
  moreover have "Map_has (participants r1) p" using r1(2) Cons.prems(4) by simp
  ultimately obtain r' where r': "map_of (rooms (run (step st op) ops)) c = Some r'"
    "participants r' = participants r1"
    and v': "votes_of r' p sg =
               (case last_cast c p sg ops of
                  None \<Rightarrow> votes_of r1 p sg
                | Some (d, t) \<Rightarrow> [\<lparr>participantId = p, songId = sg, vote = d, timestamp = t\<rparr>])"
    using Cons.IH [OF _ _ r1(1)] by blast
  have "votes_of r' p sg =
               (case last_cast c p sg (op # ops) of
                  None \<Rightarrow> votes_of r p sg
                | Some (d, t) \<Rightarrow> [\<lparr>participantId = p, songId = sg, vote = d, timestamp = t\<rparr>])"
    using v' v1 by (simp split: option.splits)
  with r' r1(2) show ?case by (simp add: run_def)
qed

text \<open>
  C2. From any reachable store, after any sequence of castVote requests a room stores at
  most one vote for each participant and song; for a member, that vote has the direction
  and timestamp of the member's last valid castVote on the song in the sequence (and is
  as before when there was none); and a castVote of a member with a direction of up or
  down succeeds whether or not a prior vote exists.
\<close>

theorem castVote_last_write_wins:
  assumes "\<forall>op \<in> set ops. is_castVote op"
    and "map_of (rooms (run initial_store ops0)) c = Some r" "Map_has (participants r) p"
  shows "\<exists>r'. map_of (rooms (run (run initial_store ops0) ops)) c = Some r'
           \<and> (\<forall>p' sg'. length (stored_votes r' p' sg') \<le> 1)
           \<and> stored_votes r' p sg =
               (case last_cast c p sg ops of
                  None \<Rightarrow> stored_votes r p sg
                | Some (d, t) \<Rightarrow> [\<lparr>participantId = p, songId = sg, vote = d, timestamp = t\<rparr>])
           \<and> (\<forall>v t. v \<in> {''up'', ''down''} \<longrightarrow>
                 (\<exists>x. fst (castVote c p sg v t (run (run initial_store ops0) ops)) = Inr x))"
proof -
  let ?st = "run initial_store ops0"
  have inv: "store_inv ?st" by (rule store_inv_reachable)
  from castVotes_run_votes [OF inv assms, of sg]
  obtain r' where r': "map_of (rooms (run ?st ops)) c = Some r'" "participants r' = participants r"
    and v': "votes_of r' p sg =
               (case last_cast c p sg ops of
                  None \<Rightarrow> votes_of r p sg
                | Some (d, t) \<Rightarrow> [\<lparr>participantId = p, songId = sg, vote = d, timestamp = t\<rparr>])"
    by blast
  have wf: "room_inv r" using inv assms(2) by (rule store_inv_lookup)
  have wf': "room_inv r'" using store_inv_run [OF inv] r'(1) by (rule store_inv_lookup)
  have one: "\<forall>p' sg'. length (stored_votes r' p' sg') \<le> 1"
    using stored_votes_le_one [OF wf'] by blast
  have last: "stored_votes r' p sg =
               (case last_cast c p sg ops of
                  None \<Rightarrow> stored_votes r p sg
                | Some (d, t) \<Rightarrow> [\<lparr>participantId = p, songId = sg, vote = d, timestamp = t\<rparr>])"
    unfolding stored_votes_votes_of [OF wf] stored_votes_votes_of [OF wf'] by (rule v')
  have ok: "\<forall>v t. v \<in> {''up'', ''down''} \<longrightarrow>
                 (\<exists>x. fst (castVote c p sg v t (run ?st ops)) = Inr x)"
    using r' assms(3) by (auto simp: castVote_def Let_def)
  from r'(1) one last ok show ?thesis by blast
qed

text \<open>
  Bob votes up and then down on the sample song: his down vote of time 6 is the one stored.
\<close>

theorem castVote_last_write_wins_witness:
  "\<exists>r'. map_of (rooms (run (run initial_store party_ops) party_votes)) ''ABC123'' = Some r'
      \<and> (\<forall>p' sg'. length (stored_votes r' p' sg') \<le> 1)
      \<and> stored_votes r' ''u2'' ''s1'' =
            [\<lparr>participantId = ''u2'', songId = ''s1'', vote = Down, timestamp = 6\<rparr>]
      \<and> (\<forall>v t. v \<in> {''up'', ''down''} \<longrightarrow>
            (\<exists>x. fst (castVote ''ABC123'' ''u2'' ''s1'' v t
                         (run (run initial_store party_ops) party_votes)) = Inr x))"
proof -
  have h1: "\<forall>op \<in> set party_votes. is_castVote op" by code_simp
  have h2: "map_of (rooms (run initial_store party_ops)) ''ABC123'' = Some party_room"
    by code_simp
  have h3: "Map_has (participants party_room) ''u2''" by code_simp
  have lc: "last_cast ''ABC123'' ''u2'' ''s1'' party_votes = Some (Down, 6)" by code_simp
  from castVote_last_write_wins [OF h1 h2 h3, of "''s1''"] show ?thesis
    unfolding lc by simp
qed

end
